theory Spec2Isabelle
  imports Main "HOL-Library.Sublist" "HOL-Library.Signed_Division"
begin

section \<open>Alphabet, states and transition tables\<close>

text \<open>
  Both programs (\<^verbatim>\<open>mpi-fsm-2.c\<close> and \<^verbatim>\<open>mpi-fsm-4.c\<close>) declare the symbols and
  the states as anonymous C enums and keep them in \<^verbatim>\<open>int\<close> variables, so symbols and
  states are integers here. \<^verbatim>\<open>ACK\<close> exists in \<^verbatim>\<open>mpi-fsm-4.c\<close> only.
\<close>

definition NUM_SYMBOLS :: int where "NUM_SYMBOLS = 3"

definition A :: int where "A = 0"
definition B :: int where "B = 1"
definition C :: int where "C = 2"
definition ACK :: int where "ACK = 3"

definition R0 :: int where "R0 = 0"
definition Q0 :: int where "Q0 = 0"
definition Q1 :: int where "Q1 = 1"
definition Q2 :: int where "Q2 = 2"
definition Q3 :: int where "Q3 = 3"

definition ROOT :: int where "ROOT = 0"

definition DELTA_PROC :: "int list list" where
  "DELTA_PROC = [[Q1, Q0, Q0],
                 [Q1, Q2, Q1],
                 [Q2, Q2, Q3],
                 [Q3, Q3, Q3]]"

text \<open>
  \<^verbatim>\<open>return DELTA_PROC[state][symbol];\<close> The array is \<^verbatim>\<open>int[4][NUM_SYMBOLS]\<close>; an index
  outside it is undefined behaviour in C, which is the value \<open>None\<close> here.
\<close>

definition next_state_proc :: "int \<Rightarrow> int \<Rightarrow> int option" where
  "next_state_proc state symbol =
     (if 0 \<le> state \<and> state < 4 \<and> 0 \<le> symbol \<and> symbol < NUM_SYMBOLS
      then Some (DELTA_PROC ! nat state ! nat symbol)
      else None)"

definition DELTA_ROOT :: "int list list" where
  "DELTA_ROOT = [[R0, R0, R0]]"

definition next_state_root :: "int \<Rightarrow> int \<Rightarrow> int option" where
  "next_state_root state symbol =
     (if 0 \<le> state \<and> state < 1 \<and> 0 \<le> symbol \<and> symbol < NUM_SYMBOLS
      then Some (DELTA_ROOT ! nat state ! nat symbol)
      else None)"

section \<open>Symbol source\<close>

text \<open>
  \<^verbatim>\<open>return rand() % NUM_SYMBOLS;\<close> The argument is the value \<^verbatim>\<open>rand()\<close> returned
  (the C library promises \<open>0 \<le> r \<le> RAND_MAX\<close>); C's \<^verbatim>\<open>%\<close> truncates towards zero,
  which is \<open>smod\<close>.
\<close>

definition get_random_msg :: "int \<Rightarrow> int" where
  "get_random_msg r = r smod NUM_SYMBOLS"

section \<open>Worker process of mpi-fsm-4.c\<close>

text \<open>
  The worker's variables, and a log of what it did on the transport: \<open>outbox\<close> lists the
  \<^verbatim>\<open>MPI_Send\<close> calls as (destination, value stored in every slot of the message) and
  \<open>recvd\<close> counts the completed \<^verbatim>\<open>MPI_Recv\<close> calls. A message from the root is an array
  of \<^verbatim>\<open>MSG_SIZE\<close> equal integers, of which the worker reads \<^verbatim>\<open>msg[0]\<close> only; a delivered
  message is represented by that integer.
\<close>

record worker =
  my_state :: int
  done_w :: int
  outbox :: "(int \<times> int) list"
  recvd :: nat

definition worker_init :: worker where
  "worker_init = \<lparr>my_state = Q0, done_w = 0, outbox = [], recvd = 0\<rparr>"

text \<open>
  One pass through the body of \<^verbatim>\<open>while (!done)\<close>: the receive and the \<^verbatim>\<open>switch (msg[0])\<close>,
  which has the cases \<^verbatim>\<open>A\<close>, \<^verbatim>\<open>B\<close>, \<^verbatim>\<open>C\<close> and no default.
\<close>

definition worker_step :: "worker \<Rightarrow> int \<Rightarrow> worker option" where
  "worker_step w0 m =
     (let w = w0\<lparr>recvd := recvd w0 + 1\<rparr> in
      if m = A then
        (if Q0 = my_state w then
           (case next_state_proc (my_state w) m of
              None \<Rightarrow> None
            | Some q \<Rightarrow> Some (w\<lparr>my_state := q\<rparr>))
         else Some w)
      else if m = B then
        (if Q1 = my_state w then
           (case next_state_proc (my_state w) m of
              None \<Rightarrow> None
            | Some q \<Rightarrow> Some (w\<lparr>my_state := q\<rparr>))
         else Some w)
      else if m = C then
        (if Q2 = my_state w then
           (case next_state_proc (my_state w) m of
              None \<Rightarrow> None
            | Some q \<Rightarrow> Some (w\<lparr>my_state := q,
                                outbox := outbox w @ [(ROOT, ACK)],
                                done_w := done_w w + 1\<rparr>))
         else Some w)
      else Some w)"

text \<open>
  The loop \<^verbatim>\<open>while (!done)\<close> over the messages delivered so far. When the list is used
  up the worker is either out of the loop or blocked in \<^verbatim>\<open>MPI_Recv\<close>; the result is its
  state at that point. Messages that arrive after the loop was left are never received.
\<close>

fun worker_run :: "worker \<Rightarrow> int list \<Rightarrow> worker option" where
  "worker_run w [] = Some w"
| "worker_run w (m # ms) =
     (if done_w w \<noteq> 0 then Some w
      else (case worker_step w m of
              None \<Rightarrow> None
            | Some w' \<Rightarrow> worker_run w' ms))"

section \<open>Worker process of mpi-fsm-2.c\<close>

text \<open>The same switch without the acknowledgment: nothing is sent.\<close>

record worker2 =
  my_state2 :: int
  done2 :: int

definition worker2_init :: worker2 where
  "worker2_init = \<lparr>my_state2 = Q0, done2 = 0\<rparr>"

definition worker2_step :: "worker2 \<Rightarrow> int \<Rightarrow> worker2 option" where
  "worker2_step w m =
     (if m = A then
        (if Q0 = my_state2 w then
           (case next_state_proc (my_state2 w) m of
              None \<Rightarrow> None
            | Some q \<Rightarrow> Some (w\<lparr>my_state2 := q\<rparr>))
         else Some w)
      else if m = B then
        (if Q1 = my_state2 w then
           (case next_state_proc (my_state2 w) m of
              None \<Rightarrow> None
            | Some q \<Rightarrow> Some (w\<lparr>my_state2 := q\<rparr>))
         else Some w)
      else if m = C then
        (if Q2 = my_state2 w then
           (case next_state_proc (my_state2 w) m of
              None \<Rightarrow> None
            | Some q \<Rightarrow> Some (w\<lparr>my_state2 := q, done2 := done2 w + 1\<rparr>))
         else Some w)
      else Some w)"

section \<open>Root process of mpi-fsm-4.c\<close>

text \<open>
  The root's variables and its log on the transport: \<open>sends\<close> lists the \<^verbatim>\<open>MPI_Send\<close>
  calls as (destination, symbol) in order, \<open>recv_from\<close> the sources of the messages taken
  by \<^verbatim>\<open>MPI_Recv\<close>. The root keeps one counter, \<^verbatim>\<open>ACK_COUNT\<close>, and no record per worker.
  Its \<^verbatim>\<open>my_state = R0\<close> is assigned once and never read, and is left out. The C \<^verbatim>\<open>int\<close>
  variables are unbounded integers here: with at least one worker \<^verbatim>\<open>ACK_COUNT\<close> stays
  between 0 and \<^verbatim>\<open>num_nodes - 1\<close> (lemma \<open>ACK_COUNT_bounds\<close> below) and \<^verbatim>\<open>done\<close> is 0 or 1.
\<close>

record root =
  num_nodes :: int
  ACK_COUNT :: int
  done_r :: int
  sends :: "(int \<times> int) list"
  recv_from :: "int list"

definition root_init :: "int \<Rightarrow> root" where
  "root_init n = \<lparr>num_nodes = n, ACK_COUNT = 0, done_r = 0, sends = [], recv_from = []\<rparr>"

text \<open>
  What the environment supplies in one pass through the loop: the value of \<^verbatim>\<open>rand()\<close>,
  and the outcome of \<^verbatim>\<open>MPI_Iprobe\<close>: \<open>Some source\<close> when it set \<^verbatim>\<open>flag\<close> to 1 for a
  pending message of that source, \<open>None\<close> otherwise.
\<close>

type_synonym round_input = "int \<times> int option"

text \<open>\<^verbatim>\<open>for (j=1;j<num_nodes;j++) MPI_Send(&msg,...,j,...)\<close>\<close>

definition broadcast :: "int \<Rightarrow> int \<Rightarrow> (int \<times> int) list" where
  "broadcast n tmpmsg = map (\<lambda>j. (j, tmpmsg)) [1..n - 1]"

text \<open>
  One pass through the body of the root's \<^verbatim>\<open>while (!done)\<close>: draw a symbol, send it to
  every worker, probe, and if a message is pending receive it from its source and
  \<^verbatim>\<open>if (num_nodes-1 == ++ACK_COUNT) ++done;\<close>
\<close>

definition root_step :: "root \<Rightarrow> round_input \<Rightarrow> root" where
  "root_step st e =
     (let tmpmsg = get_random_msg (fst e);
          st1 = st\<lparr>sends := sends st @ broadcast (num_nodes st) tmpmsg\<rparr>
      in case snd e of
           None \<Rightarrow> st1
         | Some source \<Rightarrow>
             (let st2 = st1\<lparr>recv_from := recv_from st1 @ [source],
                            ACK_COUNT := ACK_COUNT st1 + 1\<rparr>
              in if num_nodes st2 - 1 = ACK_COUNT st2
                 then st2\<lparr>done_r := done_r st2 + 1\<rparr>
                 else st2))"

text \<open>
  The loop \<^verbatim>\<open>while (!done)\<close> over the rounds the environment offers; rounds offered after
  \<^verbatim>\<open>done\<close> was set are not run.
\<close>

fun root_run :: "root \<Rightarrow> round_input list \<Rightarrow> root" where
  "root_run st [] = st"
| "root_run st (e # es) =
     (if done_r st \<noteq> 0 then st else root_run (root_step st e) es)"

text \<open>The messages sent to process \<open>j\<close> so far.\<close>

definition sent_to :: "int \<Rightarrow> (int \<times> int) list \<Rightarrow> nat" where
  "sent_to j log = length (filter (\<lambda>p. fst p = j) log)"

section \<open>Root process of mpi-fsm-2.c\<close>

text \<open>
  \<^verbatim>\<open>for (i=0;i<50;i++) { msg = get_random_msg(); for (j=1;j<num_nodes;j++) MPI_Send(...); }\<close>
  The root receives nothing. \<open>rnd k\<close> is the value of the \<open>k\<close>-th call of \<^verbatim>\<open>rand()\<close>.
\<close>

record root2 =
  i2 :: int
  sends2 :: "(int \<times> int) list"

function root2_loop :: "int \<Rightarrow> (nat \<Rightarrow> int) \<Rightarrow> root2 \<Rightarrow> root2" where
  "root2_loop n rnd st =
     (if i2 st < 50
      then root2_loop n rnd
             (st\<lparr>sends2 := sends2 st @ broadcast n (get_random_msg (rnd (nat (i2 st)))),
                 i2 := i2 st + 1\<rparr>)
      else st)"
  by pat_completeness auto
termination
  by (relation "measure (\<lambda>(n, rnd, st). nat (50 - i2 st))") auto

definition root2_main :: "int \<Rightarrow> (nat \<Rightarrow> int) \<Rightarrow> root2" where
  "root2_main n rnd = root2_loop n rnd \<lparr>i2 = 0, sends2 = []\<rparr>"

declare root2_loop.simps [simp del]

lemmas symbol_defs = A_def B_def C_def ACK_def
lemmas state_defs = R0_def Q0_def Q1_def Q2_def Q3_def

section \<open>Symbol source: range\<close>

lemma smod_nonneg_3: "0 \<le> r \<Longrightarrow> r smod 3 = r mod (3::int)"
  by (simp add: signed_modulo_int_def sgn_if)

text \<open>
  Claim C9. Every call of \<^verbatim>\<open>get_random_msg\<close> returns one of \<open>A\<close>, \<open>B\<close>, \<open>C\<close>, that is
  0, 1 or 2, and never the reserved value \<open>ACK\<close> = 3. The hypothesis is what the C
  library promises of \<^verbatim>\<open>rand()\<close>: its value is not negative.
\<close>

theorem get_random_msg_in_alphabet:
  "0 \<le> r \<Longrightarrow> get_random_msg r \<in> {A, B, C} \<and> get_random_msg r \<in> {0, 1, 2}
               \<and> get_random_msg r \<noteq> ACK"
proof -
  assume r: "0 \<le> r"
  have "0 \<le> r mod 3" "r mod 3 < 3"
    by simp_all
  then have "r mod 3 = 0 \<or> r mod 3 = 1 \<or> r mod 3 = 2"
    by arith
  then show ?thesis
    unfolding get_random_msg_def NUM_SYMBOLS_def smod_nonneg_3 [OF r] symbol_defs
    by auto
qed

theorem get_random_msg_in_alphabet_witness:
  "(0::int) \<le> 7 \<and> get_random_msg 7 = B \<and> get_random_msg 7 \<in> {A, B, C} \<and> get_random_msg 7 \<noteq> ACK"
  using get_random_msg_in_alphabet [of 7]
  by (simp add: get_random_msg_def NUM_SYMBOLS_def signed_modulo_int_def symbol_defs)

section \<open>The worker switch\<close>

lemma symbols_distinct: "A \<noteq> B" "A \<noteq> C" "B \<noteq> C" "B \<noteq> A" "C \<noteq> A" "C \<noteq> B"
  "A \<noteq> ACK" "B \<noteq> ACK" "C \<noteq> ACK"
  by (simp_all add: symbol_defs)

lemma states_distinct: "Q0 \<noteq> Q1" "Q0 \<noteq> Q2" "Q0 \<noteq> Q3" "Q1 \<noteq> Q2" "Q1 \<noteq> Q3" "Q2 \<noteq> Q3"
  "Q1 \<noteq> Q0" "Q2 \<noteq> Q0" "Q3 \<noteq> Q0" "Q2 \<noteq> Q1" "Q3 \<noteq> Q1" "Q3 \<noteq> Q2"
  by (simp_all add: state_defs)

lemma nsp_table:
  "next_state_proc Q0 A = Some Q1" "next_state_proc Q0 B = Some Q0" "next_state_proc Q0 C = Some Q0"
  "next_state_proc Q1 A = Some Q1" "next_state_proc Q1 B = Some Q2" "next_state_proc Q1 C = Some Q1"
  "next_state_proc Q2 A = Some Q2" "next_state_proc Q2 B = Some Q2" "next_state_proc Q2 C = Some Q3"
  "next_state_proc Q3 A = Some Q3" "next_state_proc Q3 B = Some Q3" "next_state_proc Q3 C = Some Q3"
  by (simp_all add: next_state_proc_def DELTA_PROC_def NUM_SYMBOLS_def symbol_defs state_defs)

lemma worker_step_eq:
  "worker_step w m = Some
     (if m = A \<and> my_state w = Q0 then w\<lparr>recvd := recvd w + 1, my_state := Q1\<rparr>
      else if m = B \<and> my_state w = Q1 then w\<lparr>recvd := recvd w + 1, my_state := Q2\<rparr>
      else if m = C \<and> my_state w = Q2
        then w\<lparr>recvd := recvd w + 1, my_state := Q3,
                outbox := outbox w @ [(ROOT, ACK)], done_w := done_w w + 1\<rparr>
      else w\<lparr>recvd := recvd w + 1\<rparr>)"
  using symbols_distinct nsp_table(1,5,9)
  by (auto simp: worker_step_def Let_def)

lemma worker2_step_eq:
  "worker2_step w m = Some
     (if m = A \<and> my_state2 w = Q0 then w\<lparr>my_state2 := Q1\<rparr>
      else if m = B \<and> my_state2 w = Q1 then w\<lparr>my_state2 := Q2\<rparr>
      else if m = C \<and> my_state2 w = Q2 then w\<lparr>my_state2 := Q3, done2 := done2 w + 1\<rparr>
      else w)"
  using symbols_distinct nsp_table(1,5,9)
  by (auto simp: worker2_step_def)

lemma worker_step_mono:
  "worker_step w m = Some w' \<Longrightarrow> my_state w \<le> my_state w'"
  by (auto simp: worker_step_eq state_defs split: if_splits)

lemma worker_step_Q3:
  "my_state w = Q3 \<Longrightarrow> worker_step w m = Some (w\<lparr>recvd := recvd w + 1\<rparr>)"
  by (simp add: worker_step_eq states_distinct)

lemma worker_step_noadv:
  "(my_state w, s) \<notin> {(Q0, A), (Q1, B), (Q2, C)} \<Longrightarrow>
   worker_step w s = Some (w\<lparr>recvd := recvd w + 1\<rparr>)"
  by (auto simp: worker_step_eq)

lemma worker_step_accept:
  "my_state w = Q2 \<Longrightarrow>
   worker_step w C = Some (w\<lparr>recvd := recvd w + 1, my_state := Q3,
                            outbox := outbox w @ [(ROOT, ACK)], done_w := done_w w + 1\<rparr>)"
  by (simp add: worker_step_eq symbols_distinct states_distinct)

lemma worker_step_silent:
  "\<not> (my_state w = Q2 \<and> s = C) \<Longrightarrow>
   \<exists>w'. worker_step w s = Some w' \<and> outbox w' = outbox w \<and> done_w w' = done_w w \<and>
        (my_state w \<noteq> Q3 \<longrightarrow> my_state w' \<noteq> Q3)"
  by (auto simp: worker_step_eq states_distinct)

lemma worker_step_inv:
  assumes "worker_step w m = Some w'"
      and "if my_state w = Q3 then done_w w = 1 \<and> outbox w = [(ROOT, ACK)]
           else done_w w = 0 \<and> outbox w = []"
      and "done_w w = 0"
  shows "if my_state w' = Q3 then done_w w' = 1 \<and> outbox w' = [(ROOT, ACK)]
         else done_w w' = 0 \<and> outbox w' = []"
  using assms
  by (auto simp: worker_step_eq states_distinct split: if_splits)

section \<open>The worker loop\<close>

lemma worker_run_done: "done_w w \<noteq> 0 \<Longrightarrow> worker_run w S = Some w"
  by (cases S) simp_all

lemma worker_run_total: "\<exists>w'. worker_run w S = Some w'"
proof (induction S arbitrary: w)
  case Nil
  show ?case by simp
next
  case (Cons m S)
  obtain w1 where w1: "worker_step w m = Some w1"
    by (simp add: worker_step_eq)
  with Cons.IH [of w1] show ?case
    by simp
qed

lemma worker_run_append:
  "worker_run w (S @ T) = (case worker_run w S of None \<Rightarrow> None | Some w' \<Rightarrow> worker_run w' T)"
proof (induction S arbitrary: w)
  case Nil
  show ?case by simp
next
  case (Cons m S)
  show ?case
  proof (cases "done_w w = 0")
    case True
    then show ?thesis
      by (simp add: worker_step_eq Cons.IH)
  next
    case False
    then show ?thesis
      by (simp add: worker_run_done)
  qed
qed

lemma worker_run_mono:
  "worker_run w S = Some w' \<Longrightarrow> my_state w \<le> my_state w'"
proof (induction S arbitrary: w)
  case Nil
  then show ?case by simp
next
  case (Cons m S)
  show ?case
  proof (cases "done_w w = 0")
    case True
    obtain w1 where w1: "worker_step w m = Some w1"
      by (simp add: worker_step_eq)
    with True Cons.prems have "worker_run w1 S = Some w'"
      by simp
    then have "my_state w1 \<le> my_state w'"
      by (rule Cons.IH)
    with worker_step_mono [OF w1] show ?thesis
      by simp
  next
    case False
    with Cons.prems show ?thesis by simp
  qed
qed

lemma worker_run_Q3:
  "my_state w = Q3 \<Longrightarrow> worker_run w S = Some w' \<Longrightarrow> my_state w' = Q3"
proof (induction S arbitrary: w)
  case Nil
  then show ?case by simp
next
  case (Cons m S)
  show ?case
  proof (cases "done_w w = 0")
    case True
    with Cons.prems have "worker_run (w\<lparr>recvd := recvd w + 1\<rparr>) S = Some w'"
      by (simp add: worker_step_Q3)
    moreover have "my_state (w\<lparr>recvd := recvd w + 1\<rparr>) = Q3"
      using Cons.prems by simp
    ultimately show ?thesis
      using Cons.IH by blast
  next
    case False
    with Cons.prems show ?thesis by simp
  qed
qed

lemma worker_run_noadv:
  "(my_state w, s) \<notin> {(Q0, A), (Q1, B), (Q2, C)} \<Longrightarrow>
   \<exists>w'. worker_run w (replicate n s) = Some w' \<and> my_state w' = my_state w \<and>
        outbox w' = outbox w \<and> done_w w' = done_w w"
proof (induction n arbitrary: w)
  case 0
  show ?case by simp
next
  case (Suc n)
  from Suc.prems Suc.IH [of "w\<lparr>recvd := recvd w + 1\<rparr>"] show ?case
    by (auto simp: worker_step_noadv)
qed

lemma worker_run_inv:
  "worker_run w S = Some w' \<Longrightarrow>
   (if my_state w = Q3 then done_w w = 1 \<and> outbox w = [(ROOT, ACK)]
    else done_w w = 0 \<and> outbox w = []) \<Longrightarrow>
   (if my_state w' = Q3 then done_w w' = 1 \<and> outbox w' = [(ROOT, ACK)]
    else done_w w' = 0 \<and> outbox w' = [])"
proof (induction S arbitrary: w)
  case Nil
  then show ?case by auto
next
  case (Cons m S)
  show ?case
  proof (cases "done_w w = 0")
    case True
    obtain w1 where w1: "worker_step w m = Some w1"
      by (simp add: worker_step_eq)
    from True Cons.prems(1) w1 have run: "worker_run w1 S = Some w'"
      by simp
    from worker_step_inv [OF w1 Cons.prems(2) True] Cons.IH [OF run]
    show ?thesis by blast
  next
    case False
    with Cons.prems show ?thesis by (auto split: if_splits)
  qed
qed

lemma run_from_Q2:
  "my_state w = Q2 \<Longrightarrow> done_w w = 0 \<Longrightarrow>
   \<exists>w'. worker_run w S = Some w' \<and> my_state w' = (if C \<in> set S then Q3 else Q2)"
proof (induction S arbitrary: w)
  case Nil
  then show ?case by simp
next
  case (Cons m S)
  show ?case
  proof (cases "m = C")
    case True
    with Cons.prems show ?thesis
      by (simp add: worker_step_eq worker_run_done symbols_distinct states_distinct)
  next
    case False
    with Cons.prems Cons.IH [of "w\<lparr>recvd := recvd w + 1\<rparr>"] show ?thesis
      by (auto simp: worker_step_eq states_distinct symbols_distinct)
  qed
qed

lemma run_from_Q1:
  "my_state w = Q1 \<Longrightarrow> done_w w = 0 \<Longrightarrow>
   \<exists>w'. worker_run w S = Some w' \<and>
        my_state w' = (if subseq [B, C] S then Q3 else if B \<in> set S then Q2 else Q1)"
proof (induction S arbitrary: w)
  case Nil
  then show ?case by simp
next
  case (Cons m S)
  show ?case
  proof (cases "m = B")
    case True
    with Cons.prems run_from_Q2 [of "w\<lparr>recvd := recvd w + 1, my_state := Q2\<rparr>" S]
    show ?thesis
      by (auto simp: worker_step_eq subseq_singleton_left symbols_distinct states_distinct)
  next
    case False
    with Cons.prems Cons.IH [of "w\<lparr>recvd := recvd w + 1\<rparr>"] show ?thesis
      by (auto simp: worker_step_eq states_distinct symbols_distinct)
  qed
qed

lemma run_from_Q0:
  "my_state w = Q0 \<Longrightarrow> done_w w = 0 \<Longrightarrow>
   \<exists>w'. worker_run w S = Some w' \<and>
        my_state w' = (if subseq [A, B, C] S then Q3
                       else if subseq [A, B] S then Q2
                       else if A \<in> set S then Q1 else Q0)"
proof (induction S arbitrary: w)
  case Nil
  then show ?case by simp
next
  case (Cons m S)
  show ?case
  proof (cases "m = A")
    case True
    with Cons.prems run_from_Q1 [of "w\<lparr>recvd := recvd w + 1, my_state := Q1\<rparr>" S]
    show ?thesis
      by (auto simp: worker_step_eq subseq_singleton_left symbols_distinct states_distinct)
  next
    case False
    with Cons.prems Cons.IH [of "w\<lparr>recvd := recvd w + 1\<rparr>"] show ?thesis
      by (auto simp: worker_step_eq states_distinct symbols_distinct)
  qed
qed

lemma subseq3_decomp:
  "subseq [x, y, z] S \<longleftrightarrow> (\<exists>xs ys zs ws. S = xs @ x # ys @ y # zs @ z # ws)"
proof
  assume "subseq [x, y, z] S"
  then obtain xs S1 where 1: "S = xs @ x # S1" "subseq [y, z] S1"
    by (auto dest: list_emb_ConsD)
  then obtain ys S2 where 2: "S1 = ys @ y # S2" "subseq [z] S2"
    by (auto dest: list_emb_ConsD)
  then obtain zs ws where 3: "S2 = zs @ z # ws"
    by (auto dest: list_emb_ConsD)
  from 1 2 3 show "\<exists>xs ys zs ws. S = xs @ x # ys @ y # zs @ z # ws"
    by blast
next
  assume "\<exists>xs ys zs ws. S = xs @ x # ys @ y # zs @ z # ws"
  then obtain xs ys zs ws where S: "S = xs @ x # ys @ y # zs @ z # ws"
    by blast
  have "subseq [z] (zs @ z # ws)"
    by (simp add: subseq_singleton_left)
  then have "subseq [y, z] (ys @ y # zs @ z # ws)"
    by (intro list_emb_append2) simp
  then have "subseq [x, y, z] (xs @ x # ys @ y # zs @ z # ws)"
    by (intro list_emb_append2) simp
  with S show "subseq [x, y, z] S"
    by simp
qed

section \<open>Claims about the worker\<close>

text \<open>
  Claim C1. For every finite sequence \<open>S\<close> of symbols from \<open>{A, B, C}\<close>, the worker of
  \<^verbatim>\<open>mpi-fsm-4.c\<close>, started in \<open>Q0\<close> and fed \<open>S\<close>, is in \<open>Q3\<close> afterwards if and only
  if \<open>A\<close>, \<open>B\<close>, \<open>C\<close> occur in \<open>S\<close> in this order as a subsequence, that is
  \<open>S = xs @ A # ys @ B # zs @ C # ws\<close>; without such a subsequence the worker is left in
  \<open>Q0\<close>, \<open>Q1\<close> or \<open>Q2\<close>. The run never reads outside the transition table.
\<close>

theorem worker_reaches_Q3_iff_subseq:
  assumes "set S \<subseteq> {A, B, C}"
  shows "\<exists>w. worker_run worker_init S = Some w \<and>
             (my_state w = Q3 \<longleftrightarrow> subseq [A, B, C] S) \<and>
             (subseq [A, B, C] S \<longleftrightarrow> (\<exists>xs ys zs ws. S = xs @ A # ys @ B # zs @ C # ws)) \<and>
             (\<not> subseq [A, B, C] S \<longrightarrow> my_state w \<in> {Q0, Q1, Q2})"
proof -
  have "my_state worker_init = Q0" "done_w worker_init = 0"
    by (simp_all add: worker_init_def)
  from run_from_Q0 [OF this, of S] obtain w where
    w: "worker_run worker_init S = Some w"
       "my_state w = (if subseq [A, B, C] S then Q3
                       else if subseq [A, B] S then Q2
                       else if A \<in> set S then Q1 else Q0)"
    by blast
  show ?thesis
    using w subseq3_decomp [of A B C S] by (simp add: states_distinct)
qed

theorem worker_reaches_Q3_iff_subseq_witness:
  "set [C, B, A, B, C] \<subseteq> {A, B, C} \<and>
   (\<exists>w. worker_run worker_init [C, B, A, B, C] = Some w \<and> my_state w = Q3) \<and>
   set [A, B] \<subseteq> {A, B, C} \<and>
   (\<exists>w. worker_run worker_init [A, B] = Some w \<and> my_state w \<in> {Q0, Q1, Q2})"
proof -
  have in1: "set [C, B, A, B, C] \<subseteq> {A, B, C}" and in2: "set [A, B] \<subseteq> {A, B, C}"
    by simp_all
  have yes: "subseq [A, B, C] [C, B, A, B, C]"
    by (simp add: symbols_distinct)
  have no: "\<not> subseq [A, B, C] [A, B]"
    by (simp add: symbols_distinct)
  from worker_reaches_Q3_iff_subseq [OF in1] yes
  have 1: "\<exists>w. worker_run worker_init [C, B, A, B, C] = Some w \<and> my_state w = Q3"
    by blast
  from worker_reaches_Q3_iff_subseq [OF in2] no
  have 2: "\<exists>w. worker_run worker_init [A, B] = Some w \<and> my_state w \<in> {Q0, Q1, Q2}"
    by blast
  from in1 in2 1 2 show ?thesis
    by blast
qed

text \<open>
  Claim C3. The worker's state only moves forward along \<open>Q0\<close>, \<open>Q1\<close>, \<open>Q2\<close>, \<open>Q3\<close>: for
  every state \<open>q\<close> of the four and every symbol \<open>s\<close> of \<open>A\<close>, \<open>B\<close>, \<open>C\<close>, neither the
  table entry \<open>next_state_proc q s\<close> nor the state after the guarded switch is earlier in
  the chain than \<open>q\<close>; the table maps \<open>Q3\<close> to \<open>Q3\<close> under every symbol and the switch
  leaves \<open>Q3\<close> in place. Along a run, the state after a longer input is never earlier than
  after a prefix of it, and once \<open>Q3\<close> it stays \<open>Q3\<close>.
\<close>

theorem worker_state_never_regresses:
  assumes "q \<in> {Q0, Q1, Q2, Q3}" and "s \<in> {A, B, C}" and "my_state w = q"
  shows "(\<exists>q'. next_state_proc q s = Some q' \<and> q \<le> q') \<and>
         next_state_proc Q3 s = Some Q3 \<and>
         (\<exists>w'. worker_step w s = Some w' \<and> q \<le> my_state w' \<and>
               (q = Q3 \<longrightarrow> my_state w' = Q3)) \<and>
         (\<exists>w1 w2. worker_run w S = Some w1 \<and> worker_run w (S @ T) = Some w2 \<and>
                  q \<le> my_state w1 \<and> my_state w1 \<le> my_state w2 \<and>
                  (my_state w1 = Q3 \<longrightarrow> my_state w2 = Q3))"
proof -
  have table: "(\<exists>q'. next_state_proc q s = Some q' \<and> q \<le> q') \<and> next_state_proc Q3 s = Some Q3"
    using assms(1,2) nsp_table by (auto simp: state_defs)
  obtain w' where w': "worker_step w s = Some w'"
    by (simp add: worker_step_eq)
  have step: "q \<le> my_state w' \<and> (q = Q3 \<longrightarrow> my_state w' = Q3)"
    using worker_step_mono [OF w'] w' assms(3) by (auto simp: worker_step_Q3)
  obtain w1 where w1: "worker_run w S = Some w1"
    using worker_run_total by blast
  obtain w2 where w2: "worker_run w1 T = Some w2"
    using worker_run_total by blast
  have app: "worker_run w (S @ T) = Some w2"
    by (simp add: worker_run_append w1 w2)
  have "q \<le> my_state w1" "my_state w1 \<le> my_state w2"
    using worker_run_mono [OF w1] worker_run_mono [OF w2] assms(3) by simp_all
  moreover have "my_state w1 = Q3 \<longrightarrow> my_state w2 = Q3"
    using worker_run_Q3 [OF _ w2] by simp
  ultimately show ?thesis
    using table w' step w1 app by blast
qed

theorem worker_state_never_regresses_witness:
  "Q2 \<in> {Q0, Q1, Q2, Q3} \<and> C \<in> {A, B, C} \<and> my_state (worker_init\<lparr>my_state := Q2\<rparr>) = Q2 \<and>
   (\<exists>q'. next_state_proc Q2 C = Some q' \<and> Q2 \<le> q') \<and>
   (\<exists>w'. worker_step (worker_init\<lparr>my_state := Q2\<rparr>) C = Some w' \<and> Q2 \<le> my_state w')"
proof -
  have h1: "Q2 \<in> {Q0, Q1, Q2, Q3}" and h2: "C \<in> {A, B, C}"
    and h3: "my_state (worker_init\<lparr>my_state := Q2\<rparr>) = Q2"
    by simp_all
  from worker_state_never_regresses [OF h1 h2 h3] h1 h2 h3 show ?thesis
    by blast
qed

text \<open>
  Claim C4. For every state \<open>q\<close> and symbol \<open>s\<close> in \<open>{A, B, C}\<close> where \<open>(q, s)\<close> is none
  of the advancing pairs \<open>(Q0, A)\<close>, \<open>(Q1, B)\<close>, \<open>(Q2, C)\<close>, the guarded switch leaves the
  state equal to \<open>q\<close> (and sends nothing), and so does delivering \<open>s\<close> any number \<open>n\<close> of
  times in succession.
\<close>

theorem non_advancing_symbol_is_noop:
  assumes "q \<in> {Q0, Q1, Q2, Q3}" and "s \<in> {A, B, C}"
      and "(q, s) \<notin> {(Q0, A), (Q1, B), (Q2, C)}" and "my_state w = q"
  shows "(\<exists>w'. worker_step w s = Some w' \<and> my_state w' = q \<and>
               outbox w' = outbox w \<and> done_w w' = done_w w) \<and>
         (\<exists>w'. worker_run w (replicate n s) = Some w' \<and> my_state w' = q \<and>
               outbox w' = outbox w \<and> done_w w' = done_w w)"
proof -
  from assms(3,4) have na: "(my_state w, s) \<notin> {(Q0, A), (Q1, B), (Q2, C)}"
    by simp
  from worker_step_noadv [OF na] worker_run_noadv [OF na, of n] assms(4)
  show ?thesis by simp
qed

theorem non_advancing_symbol_is_noop_witness:
  "Q1 \<in> {Q0, Q1, Q2, Q3} \<and> A \<in> {A, B, C} \<and> (Q1, A) \<notin> {(Q0, A), (Q1, B), (Q2, C)} \<and>
   my_state (worker_init\<lparr>my_state := Q1\<rparr>) = Q1 \<and>
   (\<exists>w'. worker_run (worker_init\<lparr>my_state := Q1\<rparr>) (replicate 5 A) = Some w' \<and> my_state w' = Q1)"
proof -
  have h1: "Q1 \<in> {Q0, Q1, Q2, Q3}" and h2: "A \<in> {A, B, C}"
    and h3: "(Q1, A) \<notin> {(Q0, A), (Q1, B), (Q2, C)}"
    and h4: "my_state (worker_init\<lparr>my_state := Q1\<rparr>) = Q1"
    by (simp_all add: states_distinct symbols_distinct)
  from non_advancing_symbol_is_noop [OF h1 h2 h3 h4, of 5] h1 h2 h3 h4 show ?thesis
    by blast
qed

text \<open>
  Claim C5. In a pass through the worker's loop the state \<open>Q3\<close> is produced exactly by the
  pair \<open>(Q2, C)\<close>. On that pair the worker sends one message \<open>ACK\<close> to \<open>ROOT\<close> and sets
  \<open>done\<close>, after which the loop is left: whatever is delivered later (\<open>T\<close>) is neither
  received nor answered. On every other pair nothing is sent and \<open>done\<close> stays 0. Over a
  whole run from \<open>Q0\<close> the worker has sent exactly one acknowledgment if it is in \<open>Q3\<close>,
  and nothing otherwise.
\<close>

theorem ack_sent_exactly_on_accepting_transition:
  assumes "my_state w \<in> {Q0, Q1, Q2, Q3}" and "s \<in> {A, B, C}" and "done_w w = 0"
  shows "(\<exists>w'. worker_step w s = Some w' \<and>
           ((my_state w \<noteq> Q3 \<and> my_state w' = Q3) \<longleftrightarrow> (my_state w = Q2 \<and> s = C)) \<and>
           (my_state w = Q2 \<and> s = C \<longrightarrow>
              outbox w' = outbox w @ [(ROOT, ACK)] \<and> done_w w' \<noteq> 0 \<and>
              worker_run w' T = Some w') \<and>
           (\<not> (my_state w = Q2 \<and> s = C) \<longrightarrow> outbox w' = outbox w \<and> done_w w' = 0)) \<and>
         (\<exists>v. worker_run worker_init S = Some v \<and>
              outbox v = (if my_state v = Q3 then [(ROOT, ACK)] else []) \<and>
              (done_w v \<noteq> 0 \<longleftrightarrow> my_state v = Q3) \<and>
              (my_state v = Q3 \<longrightarrow> worker_run worker_init (S @ T) = Some v))"
proof -
  have step: "\<exists>w'. worker_step w s = Some w' \<and>
           ((my_state w \<noteq> Q3 \<and> my_state w' = Q3) \<longleftrightarrow> (my_state w = Q2 \<and> s = C)) \<and>
           (my_state w = Q2 \<and> s = C \<longrightarrow>
              outbox w' = outbox w @ [(ROOT, ACK)] \<and> done_w w' \<noteq> 0 \<and>
              worker_run w' T = Some w') \<and>
           (\<not> (my_state w = Q2 \<and> s = C) \<longrightarrow> outbox w' = outbox w \<and> done_w w' = 0)"
  proof (cases "my_state w = Q2 \<and> s = C")
    case True
    with assms(3) worker_step_accept [of w] show ?thesis
      by (simp add: worker_run_done states_distinct)
  next
    case False
    with assms(3) worker_step_silent [OF False] show ?thesis
      by auto
  qed
  obtain v where v: "worker_run worker_init S = Some v"
    using worker_run_total by blast
  have inv: "if my_state v = Q3 then done_w v = 1 \<and> outbox v = [(ROOT, ACK)]
             else done_w v = 0 \<and> outbox v = []"
    by (rule worker_run_inv [OF v]) (simp add: worker_init_def states_distinct)
  have "my_state v = Q3 \<longrightarrow> worker_run worker_init (S @ T) = Some v"
    using inv by (auto simp: worker_run_append v worker_run_done)
  with v inv step show ?thesis
    by auto
qed

theorem ack_sent_exactly_on_accepting_transition_witness:
  "my_state (worker_init\<lparr>my_state := Q2\<rparr>) \<in> {Q0, Q1, Q2, Q3} \<and> C \<in> {A, B, C} \<and>
   done_w (worker_init\<lparr>my_state := Q2\<rparr>) = 0 \<and>
   (\<exists>w'. worker_step (worker_init\<lparr>my_state := Q2\<rparr>) C = Some w' \<and> my_state w' = Q3 \<and>
         outbox w' = [(ROOT, ACK)] \<and> worker_run w' [A, B, C] = Some w')"
proof -
  have h1: "my_state (worker_init\<lparr>my_state := Q2\<rparr>) \<in> {Q0, Q1, Q2, Q3}"
    and h2: "C \<in> {A, B, C}" and h3: "done_w (worker_init\<lparr>my_state := Q2\<rparr>) = 0"
    by (simp_all add: worker_init_def)
  have q: "my_state (worker_init\<lparr>my_state := Q2\<rparr>) = Q2"
    and o: "outbox (worker_init\<lparr>my_state := Q2\<rparr>) = []"
    by (simp_all add: worker_init_def)
  from ack_sent_exactly_on_accepting_transition [OF h1 h2 h3, of "[A, B, C]" "[]"] h1 h2 h3 q o show ?thesis
    by (auto simp: states_distinct)
qed

text \<open>
  Claim C7. For every state \<open>q\<close> of the four and every symbol \<open>s\<close> of \<open>A\<close>, \<open>B\<close>, \<open>C\<close>,
  the guarded switch of the worker (in \<^verbatim>\<open>mpi-fsm-4.c\<close> and in \<^verbatim>\<open>mpi-fsm-2.c\<close>) computes
  the same next state as the plain lookup \<open>next_state_proc q s\<close>, because every entry of
  \<open>DELTA_PROC\<close> outside the three advancing pairs is a self-loop.
\<close>

theorem guard_agrees_with_table:
  assumes "q \<in> {Q0, Q1, Q2, Q3}" and "s \<in> {A, B, C}"
      and "my_state w = q" and "my_state2 v = q"
  shows "map_option my_state (worker_step w s) = next_state_proc q s \<and>
         map_option my_state2 (worker2_step v s) = next_state_proc q s \<and>
         ((q, s) \<notin> {(Q0, A), (Q1, B), (Q2, C)} \<longrightarrow> next_state_proc q s = Some q)"
  using assms nsp_table
  by (auto simp: worker_step_eq worker2_step_eq symbols_distinct states_distinct)

theorem guard_agrees_with_table_witness:
  "Q0 \<in> {Q0, Q1, Q2, Q3} \<and> B \<in> {A, B, C} \<and>
   my_state worker_init = Q0 \<and> my_state2 worker2_init = Q0 \<and>
   map_option my_state (worker_step worker_init B) = next_state_proc Q0 B \<and>
   map_option my_state2 (worker2_step worker2_init B) = next_state_proc Q0 B \<and>
   next_state_proc Q0 B = Some Q0"
proof -
  have h1: "Q0 \<in> {Q0, Q1, Q2, Q3}" and h2: "B \<in> {A, B, C}"
    and h3: "my_state worker_init = Q0" and h4: "my_state2 worker2_init = Q0"
    and h5: "(Q0, B) \<notin> {(Q0, A), (Q1, B), (Q2, C)}"
    by (simp_all add: worker_init_def worker2_init_def states_distinct symbols_distinct)
  from guard_agrees_with_table [OF h1 h2 h3 h4] h1 h2 h3 h4 h5 show ?thesis
    by blast
qed

section \<open>The root of mpi-fsm-4.c: one round and the loop\<close>

lemma sent_to_append: "sent_to j (xs @ ys) = sent_to j xs + sent_to j ys"
  by (simp add: sent_to_def)

lemma count_distinct:
  "distinct xs \<Longrightarrow> length (filter (\<lambda>i. i = j) xs) = (if j \<in> set xs then 1 else 0)"
  by (induction xs) auto

lemma count_upto: "length (filter (\<lambda>i. i = j) [a..b]) = (if a \<le> j \<and> j \<le> b then 1 else 0)"
  using count_distinct [of "[a..b]" j] by simp

lemma sent_to_broadcast: "sent_to j (broadcast n m) = (if 1 \<le> j \<and> j \<le> n - 1 then 1 else 0)"
  using count_upto [of j 1 "n - 1"]
  by (simp add: sent_to_def broadcast_def filter_map o_def)

lemma length_broadcast: "length (broadcast n m) = nat (n - 1)"
  by (simp add: broadcast_def)

lemma root_step_num_nodes: "num_nodes (root_step st e) = num_nodes st"
  by (simp add: root_step_def Let_def split: option.splits)

lemma root_step_sends:
  "sends (root_step st e) = sends st @ broadcast (num_nodes st) (get_random_msg (fst e))"
  by (simp add: root_step_def Let_def split: option.splits)

lemma root_step_ACK_COUNT:
  "ACK_COUNT (root_step st e) = ACK_COUNT st + (case snd e of None \<Rightarrow> 0 | Some src \<Rightarrow> 1)"
  by (simp add: root_step_def Let_def split: option.splits)

lemma root_step_recv_from:
  "recv_from (root_step st e) = recv_from st @ (case snd e of None \<Rightarrow> [] | Some src \<Rightarrow> [src])"
  by (simp add: root_step_def Let_def split: option.splits)

lemma root_step_done:
  "done_r (root_step st e) =
     (if snd e \<noteq> None \<and> num_nodes st - 1 = ACK_COUNT st + 1 then done_r st + 1 else done_r st)"
  by (simp add: root_step_def Let_def split: option.splits)

lemmas root_step_simps =
  root_step_num_nodes root_step_sends root_step_ACK_COUNT root_step_recv_from root_step_done

lemma root_run_done: "done_r st \<noteq> 0 \<Longrightarrow> root_run st es = st"
  by (cases es) simp_all

lemma root_run_append: "root_run st (es @ fs) = root_run (root_run st es) fs"
proof (induction es arbitrary: st)
  case Nil
  show ?case by simp
next
  case (Cons e es)
  then show ?case
    by (simp add: root_run_done)
qed

lemma root_run_num_nodes: "num_nodes (root_run st es) = num_nodes st"
  by (induction es arbitrary: st) (simp_all add: root_step_num_nodes)

lemma root_run_ACK_COUNT_mono: "ACK_COUNT st \<le> ACK_COUNT (root_run st es)"
proof (induction es arbitrary: st)
  case Nil
  show ?case by simp
next
  case (Cons e es)
  have "ACK_COUNT st \<le> ACK_COUNT (root_step st e)"
    by (simp add: root_step_ACK_COUNT split: option.splits)
  also have "\<dots> \<le> ACK_COUNT (root_run (root_step st e) es)"
    by (rule Cons.IH)
  finally show ?case
    by simp
qed

lemma root_run_done_count:
  "done_r st \<noteq> 0 \<longrightarrow> ACK_COUNT st = num_nodes st - 1 \<Longrightarrow>
   done_r (root_run st es) \<noteq> 0 \<longrightarrow> ACK_COUNT (root_run st es) = num_nodes st - 1"
proof (induction es arbitrary: st)
  case Nil
  then show ?case by simp
next
  case (Cons e es)
  show ?case
  proof (cases "done_r st = 0")
    case True
    then have "done_r (root_step st e) \<noteq> 0 \<longrightarrow>
               ACK_COUNT (root_step st e) = num_nodes (root_step st e) - 1"
      by (auto simp: root_step_simps split: option.splits if_splits)
    from Cons.IH [OF this] True show ?thesis
      by (simp add: root_step_num_nodes)
  next
    case False
    with Cons.prems show ?thesis by simp
  qed
qed

lemma root_run_rounds:
  "1 \<le> j \<Longrightarrow> j \<le> num_nodes st - 1 \<Longrightarrow> ACK_COUNT st \<le> int (sent_to j (sends st)) \<Longrightarrow>
   ACK_COUNT (root_run st es) \<le> int (sent_to j (sends (root_run st es)))"
proof (induction es arbitrary: st)
  case Nil
  then show ?case by simp
next
  case (Cons e es)
  show ?case
  proof (cases "done_r st = 0")
    case True
    have "ACK_COUNT (root_step st e) \<le> int (sent_to j (sends (root_step st e)))"
      using Cons.prems
      by (simp add: root_step_simps sent_to_append sent_to_broadcast split: option.splits)
    with Cons.prems(1,2) Cons.IH [of "root_step st e"] True show ?thesis
      by (simp add: root_step_num_nodes)
  next
    case False
    with Cons.prems show ?thesis by simp
  qed
qed

lemma root_run_count_recv:
  "ACK_COUNT st = int (length (recv_from st)) \<Longrightarrow>
   ACK_COUNT (root_run st es) = int (length (recv_from (root_run st es)))"
proof (induction es arbitrary: st)
  case Nil
  then show ?case by simp
next
  case (Cons e es)
  have "ACK_COUNT (root_step st e) = int (length (recv_from (root_step st e)))"
    using Cons.prems by (simp add: root_step_simps split: option.splits)
  from Cons.IH [OF this] Cons.prems show ?case
    by simp
qed

lemma root_run_done_iff:
  "(if done_r st = 0 then ACK_COUNT st < num_nodes st - 1 else ACK_COUNT st = num_nodes st - 1) \<Longrightarrow>
   (if done_r (root_run st es) = 0 then ACK_COUNT (root_run st es) < num_nodes st - 1
    else ACK_COUNT (root_run st es) = num_nodes st - 1)"
proof (induction es arbitrary: st)
  case Nil
  then show ?case by simp
next
  case (Cons e es)
  show ?case
  proof (cases "done_r st = 0")
    case True
    with Cons.prems have
      "if done_r (root_step st e) = 0
       then ACK_COUNT (root_step st e) < num_nodes (root_step st e) - 1
       else ACK_COUNT (root_step st e) = num_nodes (root_step st e) - 1"
      by (auto simp: root_step_simps split: option.splits)
    from Cons.IH [OF this] True show ?thesis
      by (auto simp: root_step_num_nodes split: if_splits)
  next
    case False
    with Cons.prems show ?thesis by simp
  qed
qed

lemma ACK_COUNT_bounds:
  assumes "2 \<le> n"
  shows "0 \<le> ACK_COUNT (root_run (root_init n) es) \<and>
         ACK_COUNT (root_run (root_init n) es) \<le> n - 1"
proof -
  have "if done_r (root_run (root_init n) es) = 0
        then ACK_COUNT (root_run (root_init n) es) < num_nodes (root_init n) - 1
        else ACK_COUNT (root_run (root_init n) es) = num_nodes (root_init n) - 1"
    by (rule root_run_done_iff) (use assms in \<open>simp add: root_init_def\<close>)
  then have "ACK_COUNT (root_run (root_init n) es) \<le> n - 1"
    by (auto simp: root_init_def split: if_splits)
  moreover have "0 \<le> ACK_COUNT (root_run (root_init n) es)"
    using root_run_ACK_COUNT_mono [of "root_init n" es] by (simp add: root_init_def)
  ultimately show ?thesis
    by simp
qed

lemma distinct_covers_iff:
  assumes "distinct xs" and "set xs \<subseteq> {1..n - 1}" and "(2::int) \<le> n"
  shows "int (length xs) = n - 1 \<longleftrightarrow> {1..n - 1} \<subseteq> set xs"
proof
  assume len: "int (length xs) = n - 1"
  have "card (set xs) = card {1..n - 1}"
    using len assms(1,3) by (simp add: distinct_card)
  with assms(2) have "set xs = {1..n - 1}"
    by (simp add: card_subset_eq)
  then show "{1..n - 1} \<subseteq> set xs"
    by simp
next
  assume "{1..n - 1} \<subseteq> set xs"
  with assms(2) have "set xs = {1..n - 1}"
    by auto
  then have "card (set xs) = card {1..n - 1}"
    by simp
  with assms(1,3) show "int (length xs) = n - 1"
    by (simp add: distinct_card)
qed

section \<open>Claims about the root of mpi-fsm-4.c\<close>

text \<open>
  Claim C6. The root of \<^verbatim>\<open>mpi-fsm-4.c\<close>, started with \<open>n\<close> processes, sets \<open>done\<close> only
  when \<open>ACK_COUNT\<close> equals the number of workers \<open>n - 1\<close>; \<open>ACK_COUNT\<close> never decreases
  as the run goes on; and once \<open>done\<close> is set the loop is left, so that whatever further
  rounds \<open>fs\<close> the environment could offer, the state, and with it the log of broadcasts,
  stays as it is.
\<close>

theorem root_done_only_after_all_acks:
  "(done_r (root_run (root_init n) es) \<noteq> 0 \<longrightarrow>
      ACK_COUNT (root_run (root_init n) es) = n - 1) \<and>
   ACK_COUNT (root_run (root_init n) es) \<le> ACK_COUNT (root_run (root_init n) (es @ fs)) \<and>
   (done_r (root_run (root_init n) es) \<noteq> 0 \<longrightarrow>
      root_run (root_init n) (es @ fs) = root_run (root_init n) es)"
proof -
  have "done_r (root_init n) \<noteq> 0 \<longrightarrow> ACK_COUNT (root_init n) = num_nodes (root_init n) - 1"
    by (simp add: root_init_def)
  from root_run_done_count [OF this, of es]
  have a: "done_r (root_run (root_init n) es) \<noteq> 0 \<longrightarrow>
           ACK_COUNT (root_run (root_init n) es) = n - 1"
    by (simp add: root_init_def)
  have b: "ACK_COUNT (root_run (root_init n) es) \<le> ACK_COUNT (root_run (root_init n) (es @ fs))"
    by (simp add: root_run_append root_run_ACK_COUNT_mono)
  have c: "done_r (root_run (root_init n) es) \<noteq> 0 \<longrightarrow>
           root_run (root_init n) (es @ fs) = root_run (root_init n) es"
    by (simp add: root_run_append root_run_done)
  from a b c show ?thesis by blast
qed

theorem root_done_only_after_all_acks_witness:
  "done_r (root_run (root_init 3) [(5, Some 1), (7, Some 2)]) \<noteq> 0 \<and>
   ACK_COUNT (root_run (root_init 3) [(5, Some 1), (7, Some 2)]) = 3 - 1 \<and>
   root_run (root_init 3) ([(5, Some 1), (7, Some 2)] @ [(4, None)]) =
     root_run (root_init 3) [(5, Some 1), (7, Some 2)]"
proof -
  have "done_r (root_run (root_init 3) [(5, Some 1), (7, Some 2)]) \<noteq> 0"
    by (simp add: root_step_simps root_init_def)
  with root_done_only_after_all_acks [of 3 "[(5, Some 1), (7, Some 2)]" "[(4, None)]"] show ?thesis
    by blast
qed

text \<open>
  Claim C10. One pass through the root's loop in \<^verbatim>\<open>mpi-fsm-4.c\<close> sends one symbol to
  every worker \<open>1 .. num_nodes - 1\<close> and takes at most one pending message, so
  \<open>ACK_COUNT\<close> grows by at most 1 per round. Hence when the root has set \<open>done\<close>, every
  worker has been sent at least \<open>n - 1\<close> symbols, \<open>n - 1\<close> being the number of workers.
\<close>

theorem root_one_round_per_ack:
  "sends (root_step st e) = sends st @ broadcast (num_nodes st) (get_random_msg (fst e)) \<and>
   (\<forall>j. 1 \<le> j \<and> j \<le> num_nodes st - 1 \<longrightarrow>
        sent_to j (sends (root_step st e)) = sent_to j (sends st) + 1) \<and>
   length (recv_from (root_step st e)) \<le> length (recv_from st) + 1 \<and>
   ACK_COUNT st \<le> ACK_COUNT (root_step st e) \<and>
   ACK_COUNT (root_step st e) \<le> ACK_COUNT st + 1 \<and>
   (done_r (root_run (root_init n) es) \<noteq> 0 \<longrightarrow>
      (\<forall>j. 1 \<le> j \<and> j \<le> n - 1 \<longrightarrow>
           n - 1 \<le> int (sent_to j (sends (root_run (root_init n) es)))))"
proof -
  have step: "(\<forall>j. 1 \<le> j \<and> j \<le> num_nodes st - 1 \<longrightarrow>
        sent_to j (sends (root_step st e)) = sent_to j (sends st) + 1) \<and>
     length (recv_from (root_step st e)) \<le> length (recv_from st) + 1 \<and>
     ACK_COUNT st \<le> ACK_COUNT (root_step st e) \<and>
     ACK_COUNT (root_step st e) \<le> ACK_COUNT st + 1"
    by (simp add: root_step_simps sent_to_append sent_to_broadcast split: option.splits)
  have run: "n - 1 \<le> int (sent_to j (sends (root_run (root_init n) es)))"
    if d: "done_r (root_run (root_init n) es) \<noteq> 0" and j: "1 \<le> j" "j \<le> n - 1" for j
  proof -
    have "done_r (root_init n) \<noteq> 0 \<longrightarrow> ACK_COUNT (root_init n) = num_nodes (root_init n) - 1"
      by (simp add: root_init_def)
    from root_run_done_count [OF this, of es] d
    have "ACK_COUNT (root_run (root_init n) es) = n - 1"
      by (simp add: root_init_def)
    moreover have "ACK_COUNT (root_run (root_init n) es)
                   \<le> int (sent_to j (sends (root_run (root_init n) es)))"
      by (rule root_run_rounds) (use j in \<open>simp_all add: root_init_def\<close>)
    ultimately show ?thesis by simp
  qed
  from step run root_step_sends [of st e] show ?thesis
    by blast
qed

theorem root_one_round_per_ack_witness:
  "done_r (root_run (root_init 3) [(5, Some 1), (7, Some 2)]) \<noteq> 0 \<and>
   (1::int) \<le> 2 \<and> (2::int) \<le> 3 - 1 \<and>
   (3::int) - 1 \<le> int (sent_to 2 (sends (root_run (root_init 3) [(5, Some 1), (7, Some 2)])))"
proof -
  have "done_r (root_run (root_init 3) [(5, Some 1), (7, Some 2)]) \<noteq> 0"
    by (simp add: root_step_simps root_init_def)
  with root_one_round_per_ack [of "root_init 3" "(5, Some 1)" 3 "[(5, Some 1), (7, Some 2)]"] show ?thesis
    by simp
qed

text \<open>
  Claim C2 as stated fails. With three processes (workers 1 and 2), a second
  acknowledgment from worker 1 raises \<open>ACK_COUNT\<close> from 1 to 2 and sets \<open>done\<close>, although
  worker 2 has not acknowledged: the duplicate is counted, and completion is reported
  without every worker id on record.
\<close>

theorem duplicate_ack_is_counted:
  "ACK_COUNT (root_run (root_init 3) [(0, Some 1)]) = 1 \<and>
   ACK_COUNT (root_run (root_init 3) [(0, Some 1), (0, Some 1)]) = 2 \<and>
   done_r (root_run (root_init 3) [(0, Some 1), (0, Some 1)]) = 1 \<and>
   recv_from (root_run (root_init 3) [(0, Some 1), (0, Some 1)]) = [1, 1]"
  by (simp add: root_step_simps root_init_def)

text \<open>
  Claim C2, amended. The root keeps the single counter \<open>ACK_COUNT\<close> and no record per
  worker: every message it takes, whatever its source and whether or not that source was
  counted before, raises \<open>ACK_COUNT\<close> by one, so \<open>ACK_COUNT\<close> is the number of messages
  received. With at least one worker (\<open>2 \<le> n\<close>), \<open>done\<close> is set if and only if
  \<open>ACK_COUNT\<close> equals \<open>n - 1\<close>; and when the messages received came from pairwise
  distinct worker ids in \<open>1 .. n - 1\<close>, that is if and only if every worker id has
  acknowledged.
\<close>

theorem root_counts_every_ack:
  assumes "2 \<le> n"
  shows "ACK_COUNT (root_step st (r, Some src)) = ACK_COUNT st + 1 \<and>
         ACK_COUNT (root_step st (r, None)) = ACK_COUNT st \<and>
         ACK_COUNT (root_run (root_init n) es) = int (length (recv_from (root_run (root_init n) es))) \<and>
         (done_r (root_run (root_init n) es) \<noteq> 0 \<longleftrightarrow>
            ACK_COUNT (root_run (root_init n) es) = n - 1) \<and>
         (distinct (recv_from (root_run (root_init n) es)) \<and>
          set (recv_from (root_run (root_init n) es)) \<subseteq> {1..n - 1} \<longrightarrow>
            (done_r (root_run (root_init n) es) \<noteq> 0 \<longleftrightarrow>
               (\<forall>j \<in> {1..n - 1}. j \<in> set (recv_from (root_run (root_init n) es)))))"
proof -
  let ?fin = "root_run (root_init n) es"
  have cnt: "ACK_COUNT ?fin = int (length (recv_from ?fin))"
    by (rule root_run_count_recv) (simp add: root_init_def)
  have "if done_r ?fin = 0 then ACK_COUNT ?fin < num_nodes (root_init n) - 1
        else ACK_COUNT ?fin = num_nodes (root_init n) - 1"
    by (rule root_run_done_iff) (use assms in \<open>simp add: root_init_def\<close>)
  then have iff: "done_r ?fin \<noteq> 0 \<longleftrightarrow> ACK_COUNT ?fin = n - 1"
    by (auto simp: root_init_def split: if_splits)
  have cover: "done_r ?fin \<noteq> 0 \<longleftrightarrow> (\<forall>j \<in> {1..n - 1}. j \<in> set (recv_from ?fin))"
    if "distinct (recv_from ?fin)" "set (recv_from ?fin) \<subseteq> {1..n - 1}"
    using distinct_covers_iff [OF that assms] iff cnt by auto
  from cnt iff cover show ?thesis
    by (simp add: root_step_simps)
qed

theorem root_counts_every_ack_witness:
  "(2::int) \<le> 3 \<and>
   distinct (recv_from (root_run (root_init 3) [(5, Some 2), (7, None), (4, Some 1)])) \<and>
   set (recv_from (root_run (root_init 3) [(5, Some 2), (7, None), (4, Some 1)])) \<subseteq> {1..3 - 1} \<and>
   1 \<in> set (recv_from (root_run (root_init 3) [(5, Some 2), (7, None), (4, Some 1)])) \<and>
   2 \<in> set (recv_from (root_run (root_init 3) [(5, Some 2), (7, None), (4, Some 1)])) \<and>
   done_r (root_run (root_init 3) [(5, Some 2), (7, None), (4, Some 1)]) \<noteq> 0 \<and>
   ACK_COUNT (root_run (root_init 3) [(5, Some 2), (7, None), (4, Some 1)]) = 3 - 1"
proof -
  have h: "(2::int) \<le> 3"
    by simp
  have r: "recv_from (root_run (root_init 3) [(5, Some 2), (7, None), (4, Some 1)]) = [2, 1]"
    by (simp add: root_step_simps root_init_def)
  have s: "{1..3 - 1} = {1, 2::int}"
    by auto
  from root_counts_every_ack [OF h, of "root_init 3" 0 1 "[(5, Some 2), (7, None), (4, Some 1)]"] r s
  show ?thesis
    by auto
qed

section \<open>The root of mpi-fsm-2.c\<close>

lemma sent_to_rounds:
  "sent_to j (concat (map (\<lambda>k. broadcast n (g k)) ks)) =
     (if 1 \<le> j \<and> j \<le> n - 1 then length ks else 0)"
  by (induction ks) (simp_all add: sent_to_append sent_to_broadcast, simp add: sent_to_def)

lemma length_rounds:
  "length (concat (map (\<lambda>k. broadcast n (g k)) ks)) = length ks * nat (n - 1)"
  by (induction ks) (simp_all add: length_broadcast)

lemma root2_loop_eq:
  "0 \<le> i2 st \<Longrightarrow> i2 st \<le> 50 \<Longrightarrow>
   root2_loop n rnd st =
     \<lparr>i2 = 50,
      sends2 = sends2 st @
        concat (map (\<lambda>k. broadcast n (get_random_msg (rnd k))) [nat (i2 st)..<50])\<rparr>"
proof (induction n rnd st rule: root2_loop.induct)
  case (1 n rnd st)
  show ?case
  proof (cases "i2 st < 50")
    case True
    let ?st' = "st\<lparr>sends2 := sends2 st @ broadcast n (get_random_msg (rnd (nat (i2 st)))),
                   i2 := i2 st + 1\<rparr>"
    have nat_next: "nat (i2 st + 1) = Suc (nat (i2 st))"
      using "1.prems" by simp
    have "nat (i2 st) < 50"
      using True "1.prems" by simp
    then have upt: "[nat (i2 st)..<50] = nat (i2 st) # [Suc (nat (i2 st))..<50]"
      by (rule upt_conv_Cons)
    have "root2_loop n rnd st = root2_loop n rnd ?st'"
      using True by (subst root2_loop.simps) simp
    also have "\<dots> = \<lparr>i2 = 50,
        sends2 = sends2 ?st' @
          concat (map (\<lambda>k. broadcast n (get_random_msg (rnd k))) [nat (i2 ?st')..<50])\<rparr>"
      using True "1.prems" by (intro "1.IH") simp_all
    finally show ?thesis
      by (simp add: nat_next upt)
  next
    case False
    with "1.prems" have "i2 st = 50"
      by simp
    then show ?thesis
      by (subst root2_loop.simps) (cases st, simp)
  qed
qed

text \<open>
  Claim C8. The root of \<^verbatim>\<open>mpi-fsm-2.c\<close> runs exactly 50 rounds, in round \<open>k\<close> sending the
  \<open>k\<close>-th symbol drawn to every other process, and stops: every process \<open>1 .. n - 1\<close> is
  sent exactly 50 symbols. The loop takes no input from any worker, its bound is the
  constant 50.
\<close>

theorem root2_broadcasts_50_rounds:
  "i2 (root2_main n rnd) = 50 \<and>
   sends2 (root2_main n rnd) =
     concat (map (\<lambda>k. broadcast n (get_random_msg (rnd k))) [0..<50]) \<and>
   (\<forall>j. 1 \<le> j \<and> j \<le> n - 1 \<longrightarrow> sent_to j (sends2 (root2_main n rnd)) = 50) \<and>
   length (sends2 (root2_main n rnd)) = 50 * nat (n - 1)"
proof -
  have "root2_main n rnd =
        \<lparr>i2 = 50, sends2 = concat (map (\<lambda>k. broadcast n (get_random_msg (rnd k))) [0..<50])\<rparr>"
    unfolding root2_main_def by (subst root2_loop_eq) simp_all
  then show ?thesis
    by (simp add: sent_to_rounds length_rounds)
qed

theorem root2_broadcasts_50_rounds_witness:
  "(1::int) \<le> 2 \<and> (2::int) \<le> 3 - 1 \<and>
   sent_to 2 (sends2 (root2_main 3 (\<lambda>k. int k))) = 50 \<and>
   length (sends2 (root2_main 3 (\<lambda>k. int k))) = 100"
proof -
  from root2_broadcasts_50_rounds [of 3 "\<lambda>k. int k"]
  have a: "\<forall>j. 1 \<le> j \<and> j \<le> 3 - 1 \<longrightarrow> sent_to j (sends2 (root2_main 3 (\<lambda>k. int k))) = 50"
    and b: "length (sends2 (root2_main 3 (\<lambda>k. int k))) = 50 * nat (3 - 1)"
    by blast+
  have "sent_to 2 (sends2 (root2_main 3 (\<lambda>k. int k))) = 50"
    using a [rule_format, of 2] by simp
  with b show ?thesis
    by simp
qed

end
